theory Spec2Isabelle
  imports Main "HOL-Library.Word" "HOL-Library.Monad_Syntax"
begin

unbundle bit_operations_syntax

section \<open>The pin and the primitives the decoder calls\<close>

text \<open>
  The DHT11 section of \<^verbatim>\<open>esp32_dht11_iot.c\<close> talks to one pin (\<^verbatim>\<open>DHT11_PIN\<close>) through
  \<^verbatim>\<open>gpio_pad_select_gpio\<close>, \<^verbatim>\<open>gpio_set_direction\<close>, \<^verbatim>\<open>gpio_set_level\<close>,
  \<^verbatim>\<open>gpio_get_level\<close> and \<^verbatim>\<open>ets_delay_us\<close>. The pin is a record: the time elapsed in
  microseconds, the direction, the level last driven, and the list of primitive calls
  made so far, oldest first.

  The line is a function from time (in microseconds) to the level a read sees at that
  time. Timing assumptions of the model, none of them in the C text:
  \<^item> \<^verbatim>\<open>gpio_get_level\<close> samples the line at the current time and takes one microsecond, so
    a spinning loop polls the line once per microsecond;
  \<^item> \<^verbatim>\<open>ets_delay_us n\<close> takes exactly \<open>n\<close> microseconds;
  \<^item> setting the direction or the level, shifting and comparing take no time.
\<close>

datatype gpio_mode = GPIO_MODE_INPUT | GPIO_MODE_OUTPUT

datatype pin_op =
    PadSelect
  | SetDirection gpio_mode
  | SetLevel bool
  | DelayUs nat
  | GetLevel bool

record gpio =
  clock :: nat
  mode :: gpio_mode
  driven :: bool
  trace :: "pin_op list"

type_synonym line = "nat \<Rightarrow> bool"

definition gpio_pad_select_gpio :: "gpio \<Rightarrow> gpio" where
  "gpio_pad_select_gpio s = s\<lparr>trace := trace s @ [PadSelect]\<rparr>"

definition gpio_set_direction :: "gpio_mode \<Rightarrow> gpio \<Rightarrow> gpio" where
  "gpio_set_direction m s = s\<lparr>mode := m, trace := trace s @ [SetDirection m]\<rparr>"

definition gpio_set_level :: "bool \<Rightarrow> gpio \<Rightarrow> gpio" where
  "gpio_set_level v s = s\<lparr>driven := v, trace := trace s @ [SetLevel v]\<rparr>"

definition ets_delay_us :: "nat \<Rightarrow> gpio \<Rightarrow> gpio" where
  "ets_delay_us n s = s\<lparr>clock := clock s + n, trace := trace s @ [DelayUs n]\<rparr>"

definition gpio_get_level :: "line \<Rightarrow> gpio \<Rightarrow> bool \<times> gpio" where
  "gpio_get_level ln s =
     (ln (clock s),
      s\<lparr>clock := clock s + 1, trace := trace s @ [GetLevel (ln (clock s))]\<rparr>)"

text \<open>
  The two loops \<^verbatim>\<open>while(!gpio_get_level(DHT11_PIN));\<close> and
  \<^verbatim>\<open>while(gpio_get_level(DHT11_PIN));\<close> have an empty body and no bound: they poll until
  the level differs from \<open>v\<close> (\<open>v = False\<close> for the first, \<open>v = True\<close> for the second).
  A loop that never leaves is the value \<open>None\<close>.
\<close>

partial_function (option) spin_while :: "bool \<Rightarrow> line \<Rightarrow> gpio \<Rightarrow> gpio option" where
  "spin_while v ln s =
     (let r = gpio_get_level ln s
      in if fst r = v then spin_while v ln (snd r) else Some (snd r))"

declare spin_while.simps [code]

section \<open>The DHT11 section\<close>

text \<open>\<^verbatim>\<open>startSignal\<close>, lines 151 to 166.\<close>

definition startSignal :: "line \<Rightarrow> gpio \<Rightarrow> gpio option" where
  "startSignal ln s0 =
     (let s1 = gpio_set_direction GPIO_MODE_OUTPUT s0;
          s2 = gpio_set_level False s1;
          s3 = ets_delay_us (19 * 1000) s2;
          s4 = gpio_set_level True s3;
          s5 = ets_delay_us 30 s4;
          s6 = gpio_set_direction GPIO_MODE_INPUT s5
      in do {
        s7 \<leftarrow> spin_while False ln s6;
        spin_while True ln s7
      })"

text \<open>
  \<^verbatim>\<open>readData\<close>, lines 172 to 196. \<open>readData_bit\<close> is the body of the \<^verbatim>\<open>for\<close> loop and
  \<open>readData_loop\<close> the loop from a given \<open>i\<close>. \<^verbatim>\<open>sbuf\<close> is a \<^verbatim>\<open>uint8_t\<close>, so the left
  shift drops the bit that leaves the byte. The counter \<^verbatim>\<open>i\<close> stays below 9 and is a
  natural number here.
\<close>

definition readData_bit :: "line \<Rightarrow> 8 word \<Rightarrow> gpio \<Rightarrow> (8 word \<times> gpio) option" where
  "readData_bit ln sbuf s0 =
     (let sbuf1 = push_bit 1 sbuf
      in do {
        s1 \<leftarrow> spin_while False ln s0;
        let s2 = ets_delay_us 30 s1;
        let r = gpio_get_level ln s2;
        let sbuf2 = (if fst r then sbuf1 OR 1 else sbuf1 OR 0);
        s4 \<leftarrow> spin_while True ln (snd r);
        Some (sbuf2, s4)
      })"

function readData_loop :: "nat \<Rightarrow> line \<Rightarrow> 8 word \<Rightarrow> gpio \<Rightarrow> (8 word \<times> gpio) option" where
  "readData_loop i ln sbuf s =
     (if i < 8
      then do {
        r \<leftarrow> readData_bit ln sbuf s;
        readData_loop (i + 1) ln (fst r) (snd r)
      }
      else Some (sbuf, s))"
  by pat_completeness auto
termination
  by (relation "measure (\<lambda>(i, ln, sbuf, s). 8 - i)") auto

declare readData_loop.simps [simp del]

definition readData :: "line \<Rightarrow> gpio \<Rightarrow> (8 word \<times> gpio) option" where
  "readData ln s = readData_loop 0 ln 0 s"

text \<open>
  \<^verbatim>\<open>struct data\<close> has three \<^verbatim>\<open>int\<close> fields. Every value stored in them is a byte or 0
  or 1, so they are unbounded integers here.
\<close>

record data =
  temperature :: int
  humidity :: int
  status :: int

text \<open>
  \<^verbatim>\<open>getData\<close>, lines 198 to 215. \<open>temp\<close> is the content of the structure the pointer
  refers to when the call starts; the result is its content at the return. In
  \<^verbatim>\<open>buf[4] == buf[0]+buf[1]+buf[2]+buf[3]\<close> each \<^verbatim>\<open>uint8_t\<close> operand is promoted to
  \<^verbatim>\<open>int\<close> before the additions and the comparison, so the sum is the sum of the four
  values as integers (at most 1020), with no reduction.
\<close>

definition getData :: "line \<Rightarrow> gpio \<Rightarrow> data \<Rightarrow> (data \<times> gpio) option" where
  "getData ln s0 temp = do {
     r0 \<leftarrow> readData ln s0;
     r1 \<leftarrow> readData ln (snd r0);
     r2 \<leftarrow> readData ln (snd r1);
     r3 \<leftarrow> readData ln (snd r2);
     r4 \<leftarrow> readData ln (snd r3);
     let buf = [fst r0, fst r1, fst r2, fst r3, fst r4];
     let temp1 =
       (if uint (buf ! 4) = uint (buf ! 0) + uint (buf ! 1) + uint (buf ! 2) + uint (buf ! 3)
        then temp\<lparr>status := 0\<rparr>
        else temp\<lparr>status := 1\<rparr>);
     let temp2 = temp1\<lparr>temperature := uint (buf ! 2)\<rparr>;
     let temp3 = temp2\<lparr>humidity := uint (buf ! 0)\<rparr>;
     Some (temp3, snd r4)
   }"


section \<open>The HTTP handler\<close>

text \<open>
  The \<^verbatim>\<open>%d\<close> conversion of \<^verbatim>\<open>printf\<close> and \<^verbatim>\<open>sprintf\<close> (the C library, not this
  repository): the decimal digits of an \<^verbatim>\<open>int\<close>, with a minus sign when negative.
\<close>

fun digits10 :: "nat \<Rightarrow> string" where
  "digits10 n =
     (if n < 10 then [''0123456789'' ! n]
      else digits10 (n div 10) @ [''0123456789'' ! (n mod 10)])"

declare digits10.simps [simp del]

definition fmt_d :: "int \<Rightarrow> string" where
  "fmt_d x = (if x < 0 then CHR ''-'' # digits10 (nat (- x)) else digits10 (nat x))"

text \<open>
  \<^verbatim>\<open>get_handler\<close>, lines 222 to 242. \<open>console\<close> is what the handler writes with
  \<^verbatim>\<open>printf\<close> on the device's console, \<open>htmlPage\<close> the buffer it hands to
  \<^verbatim>\<open>httpd_resp_send\<close>; \<open>html_page t h\<close> is the format string of the \<^verbatim>\<open>sprintf\<close> on line 239
  filled with \<open>t\<close> and \<open>h\<close>. The handler always returns \<^verbatim>\<open>ESP_OK\<close>. The local
  \<^verbatim>\<open>struct data currentData\<close> is not initialised: its content before \<^verbatim>\<open>getData\<close> is the
  argument \<open>uninit\<close>. The page is about 300 bytes, far below \<^verbatim>\<open>BUFFERSIZE\<close>.
\<close>

record reply =
  console :: string
  htmlPage :: string

definition html_page :: "int \<Rightarrow> int \<Rightarrow> string" where
  "html_page t h =
     ''<<!DOCTYPE html><html>\<newline><head>\<newline><style>\<newline>html {font-family: sans-serif; text-align: center;}\<newline></style>\<newline></head>\<newline><body>\<newline><div>\<newline><h1>ESP32 IoT Server</h1>\<newline></div>\<newline><div>\<newline><h3>Temperature and Humidity Monitor</h3>\<newline><p>DHT11 Temperature Reading: ''
     @ fmt_d t
     @ ''&deg;C</p>\<newline><p>DHT11 Humidity Reading: ''
     @ fmt_d h
     @ ''%</p>\<newline></div>\<newline></body>\<newline></html> >''"

definition get_handler :: "line \<Rightarrow> gpio \<Rightarrow> data \<Rightarrow> (reply \<times> gpio) option" where
  "get_handler ln s0 uninit =
     (let s1 = gpio_pad_select_gpio s0
      in do {
        s2 \<leftarrow> startSignal ln s1;
        r \<leftarrow> getData ln s2 uninit;
        let currentData = fst r;
        let out =
          (if status currentData = 0
           then ''Temp='' @ fmt_d (temperature currentData) @ '', Humi=''
                @ fmt_d (humidity currentData) @ [CHR 0x0D, CHR 0x0A]
           else ''DHT11 Error!'' @ [CHR 0x0D, CHR 0x0A]);
        let html = html_page (temperature currentData) (humidity currentData);
        Some (\<lparr>console = out, htmlPage = html\<rparr>, snd r)
      })"

section \<open>Simulated lines\<close>

text \<open>
  A line is described by its runs: \<open>(n, v)\<close> is the level \<open>v\<close> held for \<open>n\<close>
  microseconds. \<open>follows ln c rs\<close> says that from time \<open>c\<close> the line \<open>ln\<close> goes
  through the runs \<open>rs\<close> in order; it says nothing about the line afterwards.
  \<open>pulse_line idle rs\<close> is the line that goes through \<open>rs\<close> from time 0 and then stays
  at \<open>idle\<close> for ever. \<open>duration rs\<close> is the time the runs take.
\<close>

fun follows :: "line \<Rightarrow> nat \<Rightarrow> (nat \<times> bool) list \<Rightarrow> bool" where
  "follows ln c [] = True"
| "follows ln c ((n, v) # rs) = ((\<forall>j<n. ln (c + j) = v) \<and> follows ln (c + n) rs)"

fun pulse_line :: "bool \<Rightarrow> (nat \<times> bool) list \<Rightarrow> line" where
  "pulse_line idle [] t = idle"
| "pulse_line idle ((n, v) # rs) t = (if t < n then v else pulse_line idle rs (t - n))"

definition duration :: "(nat \<times> bool) list \<Rightarrow> nat" where
  "duration rs = sum_list (map fst rs)"

text \<open>
  The sensor's encoding, as the comment above \<^verbatim>\<open>readData\<close> and the data sheet describe it:
  each bit is 50 microseconds low, then a high pulse, 70 microseconds long for a 1 and
  \<open>h0\<close> microseconds (26 to 28) for a 0. A byte is sent most significant bit first.
  After the last bit the sensor holds the line low for 50 more microseconds.
\<close>

definition encode_bit :: "nat \<Rightarrow> bool \<Rightarrow> (nat \<times> bool) list" where
  "encode_bit h0 b = [(50, False), (if b then 70 else h0, True)]"

definition encode_bits :: "nat \<Rightarrow> bool list \<Rightarrow> (nat \<times> bool) list" where
  "encode_bits h0 bs = concat (map (encode_bit h0) bs)"

definition bits_msb :: "8 word \<Rightarrow> bool list" where
  "bits_msb v = map (bit v) (rev [0..<8])"

definition encode_byte :: "nat \<Rightarrow> 8 word \<Rightarrow> (nat \<times> bool) list" where
  "encode_byte h0 v = encode_bits h0 (bits_msb v)"

definition encode_frame :: "nat \<Rightarrow> 8 word list \<Rightarrow> (nat \<times> bool) list" where
  "encode_frame h0 vs = encode_bits h0 (concat (map bits_msb vs))"

text \<open>
  The same pulses with each low gap written after its high pulse, which is how the loop
  of \<^verbatim>\<open>readData\<close> meets them: it starts a bit somewhere inside the gap before it.
\<close>

definition pulses :: "nat \<Rightarrow> bool list \<Rightarrow> (nat \<times> bool) list" where
  "pulses h0 bs = concat (map (\<lambda>b. [(if b then 70 else h0, True), (50, False)]) bs)"

text \<open>
  \<open>shift_in b sbuf\<close> is \<^verbatim>\<open>sbuf\<close> after one turn of the loop of \<^verbatim>\<open>readData\<close> that sampled the
  level \<open>b\<close>. \<open>spun v k s\<close> is the pin after a loop that polled \<open>v\<close> \<open>k\<close> times and then
  the other level.
\<close>

definition shift_in :: "bool \<Rightarrow> 8 word \<Rightarrow> 8 word" where
  "shift_in b sbuf = (if b then push_bit 1 sbuf OR 1 else push_bit 1 sbuf OR 0)"

definition spun :: "bool \<Rightarrow> nat \<Rightarrow> gpio \<Rightarrow> gpio" where
  "spun v k s = s\<lparr>clock := clock s + k + 1,
                  trace := trace s @ replicate k (GetLevel v) @ [GetLevel (\<not> v)]\<rparr>"

text \<open>
  Reading the level and waiting are the operations that leave the pin as it is.
  \<open>untouched s s'\<close>: from \<open>s\<close> to \<open>s'\<close> the direction and the driven level are the
  same, and the calls made in between are reads and delays only.
\<close>

fun quiet_op :: "pin_op \<Rightarrow> bool" where
  "quiet_op (GetLevel v) = True"
| "quiet_op (DelayUs n) = True"
| "quiet_op op = False"

definition untouched :: "gpio \<Rightarrow> gpio \<Rightarrow> bool" where
  "untouched s s' \<longleftrightarrow>
     mode s' = mode s \<and> driven s' = driven s
     \<and> (\<exists>ops. trace s' = trace s @ ops \<and> list_all quiet_op ops)"

text \<open>
  \<open>cut_short h0 ln c v n\<close>: at time \<open>c\<close> the line is in the low before a bit, the sensor
  sends fewer than \<open>n\<close> more bits and the low that ends them, and from then on the line
  keeps the level \<open>v\<close> for ever.
\<close>

definition cut_short :: "nat \<Rightarrow> line \<Rightarrow> nat \<Rightarrow> bool \<Rightarrow> nat \<Rightarrow> bool" where
  "cut_short h0 ln c v n \<longleftrightarrow>
     (\<exists>k bs. length bs < n \<and> follows ln c ((k, False) # pulses h0 bs)
        \<and> (\<forall>t. c + k + duration (pulses h0 bs) \<le> t \<longrightarrow> ln t = v))"

text \<open>
  \<open>handshaken s\<close> is the pin when \<^verbatim>\<open>startSignal\<close>, called in \<open>s\<close>, reaches its first
  loop: the six calls before it have been made and have taken 19030 microseconds.
\<close>

definition handshaken :: "gpio \<Rightarrow> gpio" where
  "handshaken s =
     s\<lparr>clock := clock s + 19030, mode := GPIO_MODE_INPUT, driven := True,
       trace := trace s @ [SetDirection GPIO_MODE_OUTPUT, SetLevel False, DelayUs 19000,
                           SetLevel True, DelayUs 30, SetDirection GPIO_MODE_INPUT]\<rparr>"

text \<open>
  The pin before a request (time 0, input, nothing recorded) and a structure whose
  fields hold values \<^verbatim>\<open>getData\<close> never stores.
\<close>

definition junk :: data where
  "junk = \<lparr>temperature = - 1, humidity = - 1, status = - 1\<rparr>"

definition pin0 :: gpio where
  "pin0 = \<lparr>clock = 0, mode = GPIO_MODE_INPUT, driven = True, trace = []\<rparr>"

section \<open>The wait loops\<close>

lemma clock_spun [simp]: "clock (spun v k s) = clock s + k + 1"
  by (simp add: spun_def)

lemma mode_spun [simp]: "mode (spun v k s) = mode s"
  by (simp add: spun_def)

lemma driven_spun [simp]: "driven (spun v k s) = driven s"
  by (simp add: spun_def)

text \<open>A loop leaves at the first poll that sees the other level.\<close>

lemma spin_while_exit:
  "(\<forall>j<k. ln (clock s + j) = v) \<Longrightarrow> ln (clock s + k) \<noteq> v \<Longrightarrow>
   spin_while v ln s = Some (spun v k s)"
proof (induction k arbitrary: s)
  case 0
  then show ?case
    by (subst spin_while.simps) (auto simp: gpio_get_level_def spun_def)
next
  case (Suc k)
  let ?s = "snd (gpio_get_level ln s)"
  have c: "clock ?s = clock s + 1" by (simp add: gpio_get_level_def)
  have "\<forall>j<k. ln (clock ?s + j) = v"
  proof (intro allI impI)
    fix j assume "j < k"
    then have "ln (clock s + Suc j) = v" using Suc.prems(1) by blast
    then show "ln (clock ?s + j) = v" by (simp add: c)
  qed
  moreover have "ln (clock ?s + k) \<noteq> v" using Suc.prems(2) by (simp add: c)
  ultimately have "spin_while v ln ?s = Some (spun v k ?s)" by (rule Suc.IH)
  moreover have "fst (gpio_get_level ln s) = v"
    using Suc.prems(1) by (simp add: gpio_get_level_def) (metis add.right_neutral zero_less_Suc)
  moreover have "spun v k ?s = spun v (Suc k) s"
    using calculation(2) by (simp add: spun_def gpio_get_level_def replicate_append_same)
  ultimately show ?case
    by (subst spin_while.simps) (simp add: Let_def)
qed

lemma spin_while_until:
  assumes "\<forall>t. clock s \<le> t \<and> t < e \<longrightarrow> ln t = v" and "ln e \<noteq> v" and "clock s \<le> e"
  shows "spin_while v ln s = Some (spun v (e - clock s) s)"
proof (rule spin_while_exit)
  show "\<forall>j<e - clock s. ln (clock s + j) = v" using assms(1) by auto
  show "ln (clock s + (e - clock s)) \<noteq> v" using assms(2,3) by simp
qed

text \<open>A loop that leaves has seen the other level, and only there.\<close>

lemma spin_while_SomeD:
  "spin_while v ln s = Some s' \<Longrightarrow>
   \<exists>k. (\<forall>j<k. ln (clock s + j) = v) \<and> ln (clock s + k) \<noteq> v \<and> s' = spun v k s"
proof (induction rule: spin_while.raw_induct[rotated 1, consumes 1, case_names step])
  case (step spin v ln s s')
  show ?case
  proof (cases "ln (clock s) = v")
    case False
    then have "s' = spun v 0 s"
      using step(2) by (auto simp: gpio_get_level_def spun_def Let_def)
    with False show ?thesis by (intro exI[of _ 0]) simp
  next
    case True
    let ?s = "snd (gpio_get_level ln s)"
    have c: "clock ?s = clock s + 1" by (simp add: gpio_get_level_def)
    from True step(2) have "spin v ln ?s = Some s'"
      by (simp add: gpio_get_level_def Let_def)
    from step(1)[OF this] obtain k where
      k: "\<forall>j<k. ln (clock ?s + j) = v" "ln (clock ?s + k) \<noteq> v" "s' = spun v k ?s"
      by blast
    have "\<forall>j<Suc k. ln (clock s + j) = v"
    proof (intro allI impI)
      fix j assume j: "j < Suc k"
      show "ln (clock s + j) = v"
      proof (cases j)
        case 0
        then show ?thesis using True by simp
      next
        case (Suc j')
        then have "j' < k" using j by simp
        then show ?thesis using k(1) Suc by (simp add: c)
      qed
    qed
    moreover have "ln (clock s + Suc k) \<noteq> v" using k(2) by (simp add: c)
    moreover have "s' = spun v (Suc k) s"
      using k(3) True by (simp add: spun_def gpio_get_level_def replicate_append_same)
    ultimately show ?thesis by blast
  qed
qed

text \<open>A line that keeps the level the loop waits on keeps the loop for ever.\<close>

lemma spin_while_stuck:
  assumes "\<forall>t. clock s \<le> t \<longrightarrow> ln t = v"
  shows "spin_while v ln s = None"
proof (cases "spin_while v ln s")
  case None
  then show ?thesis .
next
  case (Some s')
  then obtain k where "ln (clock s + k) \<noteq> v" using spin_while_SomeD by blast
  with assms show ?thesis by simp
qed

lemma spin_while_Some_iff:
  "(\<exists>s'. spin_while v ln s = Some s') \<longleftrightarrow> (\<exists>t. clock s \<le> t \<and> ln t \<noteq> v)"
proof
  assume "\<exists>s'. spin_while v ln s = Some s'"
  then obtain s' where "spin_while v ln s = Some s'" ..
  then obtain k where "ln (clock s + k) \<noteq> v" using spin_while_SomeD by blast
  then show "\<exists>t. clock s \<le> t \<and> ln t \<noteq> v" by (intro exI[of _ "clock s + k"]) simp
next
  assume ex: "\<exists>t. clock s \<le> t \<and> ln t \<noteq> v"
  define e where "e = (LEAST t. clock s \<le> t \<and> ln t \<noteq> v)"
  have e: "clock s \<le> e \<and> ln e \<noteq> v"
    unfolding e_def using ex by (rule LeastI_ex)
  have "\<forall>t. clock s \<le> t \<and> t < e \<longrightarrow> ln t = v"
    unfolding e_def using not_less_Least by blast
  then have "spin_while v ln s = Some (spun v (e - clock s) s)"
    using e by (intro spin_while_until) simp_all
  then show "\<exists>s'. spin_while v ln s = Some s'" by blast
qed

section \<open>Lines given by their runs\<close>

lemma follows_Cons_iff:
  "follows ln c ((n, v) # rs) \<longleftrightarrow>
     (\<forall>t. c \<le> t \<and> t < c + n \<longrightarrow> ln t = v) \<and> follows ln (c + n) rs"
proof -
  have "(\<forall>j<n. ln (c + j) = v) \<longleftrightarrow> (\<forall>t. c \<le> t \<and> t < c + n \<longrightarrow> ln t = v)"
  proof
    assume a: "\<forall>j<n. ln (c + j) = v"
    show "\<forall>t. c \<le> t \<and> t < c + n \<longrightarrow> ln t = v"
    proof (intro allI impI)
      fix t assume "c \<le> t \<and> t < c + n"
      then have "t - c < n" "c + (t - c) = t" by auto
      with a show "ln t = v" by metis
    qed
  next
    assume "\<forall>t. c \<le> t \<and> t < c + n \<longrightarrow> ln t = v"
    then show "\<forall>j<n. ln (c + j) = v" by simp
  qed
  then show ?thesis by simp
qed

lemma duration_Cons [simp]: "duration ((n, v) # rs) = n + duration rs"
  by (simp add: duration_def)

lemma duration_Nil [simp]: "duration [] = 0"
  by (simp add: duration_def)

lemma duration_append [simp]: "duration (rs @ rs') = duration rs + duration rs'"
  by (simp add: duration_def)

lemma follows_shifted:
  "(\<forall>t. ln (c + t) = pulse_line idle rs t) \<Longrightarrow> follows ln c rs"
proof (induction rs arbitrary: c)
  case Nil
  show ?case by simp
next
  case (Cons r rs)
  obtain n v where r: "r = (n, v)" by (cases r)
  have "\<forall>j<n. ln (c + j) = v" using Cons.prems by (simp add: r)
  moreover have "follows ln (c + n) rs"
  proof (rule Cons.IH, intro allI)
    fix t
    have "ln (c + (n + t)) = pulse_line idle ((n, v) # rs) (n + t)"
      using Cons.prems r by blast
    then show "ln (c + n + t) = pulse_line idle rs t" by (simp add: add.assoc)
  qed
  ultimately show ?case by (simp add: r)
qed

lemma follows_pulse_line: "follows (pulse_line idle rs) 0 rs"
  by (rule follows_shifted[where idle = idle]) simp

lemma pulse_line_after:
  "duration rs \<le> t \<Longrightarrow> pulse_line idle rs t = idle"
  by (induction rs arbitrary: t) auto

lemma pulses_Nil [simp]: "pulses h0 [] = []"
  by (simp add: pulses_def)

lemma pulses_Cons [simp]:
  "pulses h0 (b # bs) = (if b then 70 else h0, True) # (50, False) # pulses h0 bs"
  by (simp add: pulses_def)

lemma pulses_append [simp]: "pulses h0 (bs @ bs') = pulses h0 bs @ pulses h0 bs'"
  by (simp add: pulses_def)

lemma encode_bits_pulses:
  "encode_bits h0 bs @ (50, False) # rs = (50, False) # pulses h0 bs @ rs"
  by (induction bs) (simp_all add: encode_bits_def encode_bit_def)

lemma duration_encode_bits:
  "duration (encode_bits h0 bs) + 50 = 50 + duration (pulses h0 bs)"
  by (induction bs) (simp_all add: encode_bits_def encode_bit_def)

section \<open>Reading one bit, one byte\<close>

lemma readData_bit_decodes:
  assumes f: "follows ln (clock s) ((k, False) # (h, True) # (50, False) # rs)"
      and w: "if b then h = 70 else 26 \<le> h \<and> h \<le> 28"
  shows "\<exists>s' k'. readData_bit ln sbuf s = Some (shift_in b sbuf, s')
                 \<and> follows ln (clock s') ((k', False) # rs)
                 \<and> clock s' + k' = clock s + k + h + 50"
proof -
  define c where "c = clock s"
  from f have lo: "\<And>t. c \<le> t \<Longrightarrow> t < c + k \<Longrightarrow> \<not> ln t"
    and hi: "\<And>t. c + k \<le> t \<Longrightarrow> t < c + k + h \<Longrightarrow> ln t"
    and gap: "\<And>t. c + k + h \<le> t \<Longrightarrow> t < c + k + h + 50 \<Longrightarrow> \<not> ln t"
    and rest: "follows ln (c + k + h + 50) rs"
    by (simp_all add: follows_Cons_iff c_def add.assoc del: follows.simps(2))
  have hpos: "0 < h" using w by (cases b) auto
  have s1: "spin_while False ln s = Some (spun False k s)"
  proof -
    have "spin_while False ln s = Some (spun False (c + k - clock s) s)"
      by (rule spin_while_until) (use lo hi hpos in \<open>auto simp: c_def\<close>)
    then show ?thesis by (simp add: c_def)
  qed
  define s2 where "s2 = ets_delay_us 30 (spun False k s)"
  define s3 where "s3 = snd (gpio_get_level ln s2)"
  have c2: "clock s2 = c + k + 31" by (simp add: s2_def ets_delay_us_def c_def)
  have c3: "clock s3 = c + k + 32" by (simp add: s3_def gpio_get_level_def c2)
  have smp: "fst (gpio_get_level ln s2) = ln (c + k + 31)"
    by (simp add: gpio_get_level_def c2)
  show ?thesis
  proof (cases b)
    case True
    then have h: "h = 70" using w by simp
    have v: "ln (c + k + 31)" by (rule hi) (simp_all add: h)
    have "spin_while True ln s3 = Some (spun True (c + k + 70 - clock s3) s3)"
    proof (rule spin_while_until)
      show "\<forall>t. clock s3 \<le> t \<and> t < c + k + 70 \<longrightarrow> ln t = True"
        using hi by (simp add: c3 h)
      show "ln (c + k + 70) \<noteq> True" using gap[of "c + k + 70"] by (simp add: h)
      show "clock s3 \<le> c + k + 70" by (simp add: c3)
    qed
    then have s4: "spin_while True ln s3 = Some (spun True 38 s3)" by (simp add: c3)
    have r: "readData_bit ln sbuf s = Some (shift_in b sbuf, spun True 38 s3)"
      using s1 s4 v True smp
      by (simp add: readData_bit_def shift_in_def Let_def s2_def[symmetric] s3_def[symmetric])
    have a: "clock (spun True 38 s3) + 49 = c + k + h + 50" by (simp add: c3 h)
    have "\<forall>t. clock (spun True 38 s3) \<le> t \<and> t < c + k + h + 50 \<longrightarrow> ln t = False"
      using gap h by (auto simp: c3)
    then have "follows ln (clock (spun True 38 s3)) ((49, False) # rs)"
      unfolding follows_Cons_iff a using rest by blast
    with r a show ?thesis unfolding c_def by blast
  next
    case False
    then have h: "26 \<le> h" "h \<le> 28" using w by simp_all
    have v: "\<not> ln (c + k + 31)" by (rule gap) (use h in simp_all)
    have "spin_while True ln s3 = Some (spun True (c + k + 32 - clock s3) s3)"
    proof (rule spin_while_until)
      show "\<forall>t. clock s3 \<le> t \<and> t < c + k + 32 \<longrightarrow> ln t = True" by (auto simp: c3)
      show "ln (c + k + 32) \<noteq> True" using gap[of "c + k + 32"] h by simp
      show "clock s3 \<le> c + k + 32" by (simp add: c3)
    qed
    then have s4: "spin_while True ln s3 = Some (spun True 0 s3)" by (simp add: c3)
    have r: "readData_bit ln sbuf s = Some (shift_in b sbuf, spun True 0 s3)"
      using s1 s4 v False smp
      by (simp add: readData_bit_def shift_in_def Let_def s2_def[symmetric] s3_def[symmetric])
    have a: "clock (spun True 0 s3) + (h + 17) = c + k + h + 50" by (simp add: c3)
    have "\<forall>t. clock (spun True 0 s3) \<le> t \<and> t < c + k + h + 50 \<longrightarrow> ln t = False"
      using gap h by (auto simp: c3)
    then have "follows ln (clock (spun True 0 s3)) ((h + 17, False) # rs)"
      unfolding follows_Cons_iff a using rest by blast
    with r a show ?thesis unfolding c_def by blast
  qed
qed

lemma readData_loop_decodes:
  assumes h0: "26 \<le> h0" "h0 \<le> 28"
  shows "length bs + i = 8 \<Longrightarrow> follows ln (clock s) ((k, False) # pulses h0 bs @ rs) \<Longrightarrow>
     \<exists>s' k'. readData_loop i ln sbuf s = Some (fold shift_in bs sbuf, s')
            \<and> follows ln (clock s') ((k', False) # rs)
            \<and> clock s' + k' = clock s + k + duration (pulses h0 bs)"
proof (induction bs arbitrary: i sbuf s k)
  case Nil
  then have "i = 8" by simp
  then have "readData_loop i ln sbuf s = Some (sbuf, s)"
    by (simp add: readData_loop.simps[of 8])
  with Nil show ?case by auto
next
  case (Cons b bs)
  let ?h = "if b then 70 else h0"
  have i: "i < 8" using Cons.prems(1) by simp
  have "follows ln (clock s) ((k, False) # (?h, True) # (50, False) # pulses h0 bs @ rs)"
    using Cons.prems(2) by simp
  moreover have "if b then ?h = 70 else 26 \<le> ?h \<and> ?h \<le> 28" using h0 by simp
  ultimately obtain s1 k1 where
    b: "readData_bit ln sbuf s = Some (shift_in b sbuf, s1)"
    and f: "follows ln (clock s1) ((k1, False) # pulses h0 bs @ rs)"
    and c1: "clock s1 + k1 = clock s + k + ?h + 50"
    using readData_bit_decodes by blast
  have "length bs + (i + 1) = 8" using Cons.prems(1) by simp
  from Cons.IH[OF this f] obtain s' k' where
    l: "readData_loop (i + 1) ln (shift_in b sbuf) s1 = Some (fold shift_in bs (shift_in b sbuf), s')"
    and f': "follows ln (clock s') ((k', False) # rs)"
    and c': "clock s' + k' = clock s1 + k1 + duration (pulses h0 bs)" by blast
  have "readData_loop i ln sbuf s = Some (fold shift_in (b # bs) sbuf, s')"
    using i b l by (simp add: readData_loop.simps[of i])
  moreover have "clock s' + k' = clock s + k + duration (pulses h0 (b # bs))"
    using c' c1 by simp
  ultimately show ?case using f' by blast
qed

text \<open>Shifting the eight bits of a byte in, most significant first, gives the byte.\<close>

lemma shift_in_eq: "shift_in b w = push_bit 1 w OR of_bool b"
  by (simp add: shift_in_def)

lemma fold_shift_in_bits:
  "fold shift_in (map (bit v) (rev [0..<n])) acc = push_bit n acc OR take_bit n v"
proof (induction n arbitrary: acc)
  case 0
  show ?case by simp
next
  case (Suc n)
  have "fold shift_in (map (bit v) (rev [0..<Suc n])) acc
        = push_bit n (shift_in (bit v n) acc) OR take_bit n v"
    by (simp add: Suc.IH)
  also have "\<dots> = push_bit (Suc n) acc OR take_bit (Suc n) v"
    by (rule bit_eqI) (auto simp: shift_in_eq bit_simps less_Suc_eq)
  finally show ?case .
qed

lemma assemble_bits_msb: "fold shift_in (bits_msb v) 0 = v"
proof -
  have "take_bit 8 v = v" by (rule take_bit_word_eq_self) simp
  then show ?thesis by (simp add: bits_msb_def fold_shift_in_bits)
qed

lemma length_bits_msb [simp]: "length (bits_msb v) = 8"
  by (simp add: bits_msb_def)

lemma readData_decodes:
  assumes "26 \<le> h0" "h0 \<le> 28"
      and "follows ln (clock s) ((k, False) # pulses h0 (bits_msb v) @ rs)"
  shows "\<exists>s' k'. readData ln s = Some (v, s')
            \<and> follows ln (clock s') ((k', False) # rs)
            \<and> clock s' + k' = clock s + k + duration (pulses h0 (bits_msb v))"
  using readData_loop_decodes[OF assms(1,2), of "bits_msb v" 0 ln s k rs 0] assms(3)
  by (simp add: readData_def assemble_bits_msb)

text \<open>
  C2. For every 8-bit value \<open>v\<close>: on a line that, from the moment \<^verbatim>\<open>readData\<close> is called,
  carries the eight bits of \<open>v\<close>, most significant first, each as 50 microseconds low and
  then a high pulse of 26 to 28 microseconds for a 0 and of 70 microseconds for a 1, and
  then falls for the 50 microseconds that follow the last bit, \<^verbatim>\<open>readData\<close> returns, and
  returns \<open>v\<close>.
\<close>

theorem readData_returns_encoded_byte:
  assumes "26 \<le> h0" and "h0 \<le> 28"
      and "follows ln (clock s) (encode_byte h0 v @ [(50, False)])"
  shows "\<exists>s'. readData ln s = Some (v, s')"
proof -
  have "follows ln (clock s) ((50, False) # pulses h0 (bits_msb v) @ [])"
    using assms(3) by (simp only: encode_byte_def encode_bits_pulses)
  from readData_decodes[OF assms(1,2) this] show ?thesis by blast
qed

theorem readData_returns_encoded_byte_witness:
  "(26::nat) \<le> 27 \<and> (27::nat) \<le> 28
   \<and> follows (pulse_line True (encode_byte 27 0x32 @ [(50, False)])) (clock pin0)
        (encode_byte 27 0x32 @ [(50, False)])
   \<and> (\<exists>s'. readData (pulse_line True (encode_byte 27 0x32 @ [(50, False)])) pin0
              = Some (0x32, s'))"
proof -
  have c: "clock pin0 = 0" by (simp add: pin0_def)
  have f: "follows (pulse_line True (encode_byte 27 0x32 @ [(50, False)])) (clock pin0)
        (encode_byte 27 0x32 @ [(50, False)])"
    unfolding c by (rule follows_pulse_line)
  have "\<exists>s'. readData (pulse_line True (encode_byte 27 0x32 @ [(50, False)])) pin0
              = Some (0x32, s')"
    by (rule readData_returns_encoded_byte[OF _ _ f]) simp_all
  with f show ?thesis by simp
qed

section \<open>What the reads leave untouched\<close>

lemma untouched_refl [simp]: "untouched s s"
  by (simp add: untouched_def)

lemma untouched_trans: "untouched s s1 \<Longrightarrow> untouched s1 s2 \<Longrightarrow> untouched s s2"
  by (auto simp: untouched_def)

lemma untouched_spun [simp]: "untouched s (spun v k s)"
  by (simp add: untouched_def spun_def list_all_iff)

lemma untouched_ets_delay_us [simp]: "untouched s (ets_delay_us n s)"
  by (simp add: untouched_def ets_delay_us_def)

lemma untouched_gpio_get_level [simp]: "untouched s (snd (gpio_get_level ln s))"
  by (simp add: untouched_def gpio_get_level_def)

lemma spin_while_untouched: "spin_while v ln s = Some s' \<Longrightarrow> untouched s s'"
  using spin_while_SomeD by fastforce

lemma readData_bit_untouched:
  assumes "readData_bit ln sbuf s = Some (x, s')"
  shows "untouched s s'"
proof -
  from assms obtain s1 s4 where
    s1: "spin_while False ln s = Some s1"
    and s4: "spin_while True ln (snd (gpio_get_level ln (ets_delay_us 30 s1))) = Some s4"
    and e: "s' = s4"
    by (auto simp: readData_bit_def Let_def split: Option.bind_splits)
  have "untouched s s1" using s1 by (rule spin_while_untouched)
  moreover have "untouched s1 (snd (gpio_get_level ln (ets_delay_us 30 s1)))"
    by (rule untouched_trans[OF untouched_ets_delay_us untouched_gpio_get_level])
  moreover have "untouched (snd (gpio_get_level ln (ets_delay_us 30 s1))) s4"
    using s4 by (rule spin_while_untouched)
  ultimately show ?thesis unfolding e by (blast intro: untouched_trans)
qed

lemma readData_loop_untouched:
  "readData_loop i ln sbuf s = Some (x, s') \<Longrightarrow> untouched s s'"
proof (induction i ln sbuf s rule: readData_loop.induct)
  case (1 i ln sbuf s)
  show ?case
  proof (cases "i < 8")
    case False
    then show ?thesis using "1.prems" by (simp add: readData_loop.simps[of i])
  next
    case True
    then obtain r where
      r: "readData_bit ln sbuf s = Some r"
      and l: "readData_loop (i + 1) ln (fst r) (snd r) = Some (x, s')"
      using "1.prems" by (auto simp: readData_loop.simps[of i] split: Option.bind_splits)
    have "untouched s (snd r)" using r readData_bit_untouched[of ln sbuf s "fst r" "snd r"] by simp
    moreover have "untouched (snd r) s'" using "1.IH"[OF True r l] .
    ultimately show ?thesis by (rule untouched_trans)
  qed
qed

lemma readData_untouched: "readData ln s = Some (x, s') \<Longrightarrow> untouched s s'"
  unfolding readData_def by (rule readData_loop_untouched)

text \<open>\<^verbatim>\<open>getData\<close> returns exactly when its five reads return, with this result.\<close>

lemma getData_record:
  "(if c then temp\<lparr>status := 0\<rparr> else temp\<lparr>status := 1\<rparr>)
     \<lparr>temperature := t\<rparr>\<lparr>humidity := h\<rparr>
   = \<lparr>temperature = t, humidity = h, status = (if c then 0 else 1)\<rparr>"
  by (cases temp) simp

lemma getData_closed:
  "getData ln s temp =
     readData ln s \<bind> (\<lambda>r0. readData ln (snd r0) \<bind> (\<lambda>r1.
     readData ln (snd r1) \<bind> (\<lambda>r2. readData ln (snd r2) \<bind> (\<lambda>r3.
     readData ln (snd r3) \<bind> (\<lambda>r4.
       Some (\<lparr>temperature = uint (fst r2), humidity = uint (fst r0),
               status = (if uint (fst r4)
                            = uint (fst r0) + uint (fst r1) + uint (fst r2) + uint (fst r3)
                         then 0 else 1)\<rparr>, snd r4))))))"
  by (simp add: getData_def Let_def getData_record)

lemma getData_Some_iff:
  "getData ln s temp = Some (r, s') \<longleftrightarrow>
     (\<exists>b0 b1 b2 b3 b4 s1 s2 s3 s4.
        readData ln s = Some (b0, s1) \<and> readData ln s1 = Some (b1, s2)
        \<and> readData ln s2 = Some (b2, s3) \<and> readData ln s3 = Some (b3, s4)
        \<and> readData ln s4 = Some (b4, s')
        \<and> r = \<lparr>temperature = uint b2, humidity = uint b0,
                status = (if uint b4 = uint b0 + uint b1 + uint b2 + uint b3 then 0 else 1)\<rparr>)"
  unfolding getData_closed bind_eq_Some_conv
  by (simp only: split_paired_Ex fst_conv snd_conv option.inject prod.inject) blast

lemma getData_untouched:
  assumes "getData ln s temp = Some (r, s')"
  shows "untouched s s'"
proof -
  from assms obtain b0 b1 b2 b3 b4 s1 s2 s3 s4 where
    "readData ln s = Some (b0, s1)" "readData ln s1 = Some (b1, s2)"
    "readData ln s2 = Some (b2, s3)" "readData ln s3 = Some (b3, s4)"
    "readData ln s4 = Some (b4, s')"
    unfolding getData_Some_iff by blast
  then have "untouched s s1" "untouched s1 s2" "untouched s2 s3" "untouched s3 s4"
    "untouched s4 s'"
    by (blast dest: readData_untouched)+
  then show ?thesis by (blast intro: untouched_trans)
qed

section \<open>Reading a frame\<close>

lemma getData_decodes:
  assumes h0: "26 \<le> h0" "h0 \<le> 28"
      and f: "follows ln (clock s)
                ((k, False) # pulses h0 (concat (map bits_msb [b0, b1, b2, b3, b4])) @ rs)"
  shows "\<exists>s' k'. getData ln s temp
            = Some (\<lparr>temperature = uint b2, humidity = uint b0,
                     status = (if uint b4 = uint b0 + uint b1 + uint b2 + uint b3
                               then 0 else 1)\<rparr>, s')
          \<and> follows ln (clock s') ((k', False) # rs)
          \<and> clock s' + k'
              = clock s + k + duration (pulses h0 (concat (map bits_msb [b0, b1, b2, b3, b4])))"
proof -
  let ?p = "\<lambda>v. pulses h0 (bits_msb v)"
  from f have f0: "follows ln (clock s)
      ((k, False) # ?p b0 @ (?p b1 @ ?p b2 @ ?p b3 @ ?p b4 @ rs))" by simp
  from readData_decodes[OF h0 f0] obtain s1 k1 where
    r0: "readData ln s = Some (b0, s1)"
    and f1: "follows ln (clock s1) ((k1, False) # ?p b1 @ (?p b2 @ ?p b3 @ ?p b4 @ rs))"
    and c1: "clock s1 + k1 = clock s + k + duration (?p b0)" by blast
  from readData_decodes[OF h0 f1] obtain s2 k2 where
    r1: "readData ln s1 = Some (b1, s2)"
    and f2: "follows ln (clock s2) ((k2, False) # ?p b2 @ (?p b3 @ ?p b4 @ rs))"
    and c2: "clock s2 + k2 = clock s1 + k1 + duration (?p b1)" by blast
  from readData_decodes[OF h0 f2] obtain s3 k3 where
    r2: "readData ln s2 = Some (b2, s3)"
    and f3: "follows ln (clock s3) ((k3, False) # ?p b3 @ (?p b4 @ rs))"
    and c3: "clock s3 + k3 = clock s2 + k2 + duration (?p b2)" by blast
  from readData_decodes[OF h0 f3] obtain s4 k4 where
    r3: "readData ln s3 = Some (b3, s4)"
    and f4: "follows ln (clock s4) ((k4, False) # ?p b4 @ rs)"
    and c4: "clock s4 + k4 = clock s3 + k3 + duration (?p b3)" by blast
  from readData_decodes[OF h0 f4] obtain s5 k5 where
    r4: "readData ln s4 = Some (b4, s5)"
    and f5: "follows ln (clock s5) ((k5, False) # rs)"
    and c5: "clock s5 + k5 = clock s4 + k4 + duration (?p b4)" by blast
  have "getData ln s temp
      = Some (\<lparr>temperature = uint b2, humidity = uint b0,
               status = (if uint b4 = uint b0 + uint b1 + uint b2 + uint b3 then 0 else 1)\<rparr>, s5)"
    unfolding getData_Some_iff using r0 r1 r2 r3 r4 by blast
  moreover have "clock s5 + k5
      = clock s + k + duration (pulses h0 (concat (map bits_msb [b0, b1, b2, b3, b4])))"
    using c1 c2 c3 c4 c5 by simp
  ultimately show ?thesis using f5 by blast
qed

lemma getData_decodes_frame:
  assumes h0: "26 \<le> h0" "h0 \<le> 28"
      and f: "follows ln (clock s) (encode_frame h0 [b0, b1, b2, b3, b4] @ (50, False) # rs)"
  shows "\<exists>s' k'. getData ln s temp
            = Some (\<lparr>temperature = uint b2, humidity = uint b0,
                     status = (if uint b4 = uint b0 + uint b1 + uint b2 + uint b3
                               then 0 else 1)\<rparr>, s')
          \<and> follows ln (clock s') ((k', False) # rs)
          \<and> clock s' + k' = clock s + duration (encode_frame h0 [b0, b1, b2, b3, b4]) + 50"
proof -
  let ?bs = "concat (map bits_msb [b0, b1, b2, b3, b4])"
  have "follows ln (clock s) ((50, False) # pulses h0 ?bs @ rs)"
    using f by (simp only: encode_frame_def encode_bits_pulses)
  from getData_decodes[OF h0 this, of temp] obtain s' k' where
    g: "getData ln s temp
            = Some (\<lparr>temperature = uint b2, humidity = uint b0,
                     status = (if uint b4 = uint b0 + uint b1 + uint b2 + uint b3
                               then 0 else 1)\<rparr>, s')"
    and f': "follows ln (clock s') ((k', False) # rs)"
    and c: "clock s' + k' = clock s + 50 + duration (pulses h0 ?bs)" by blast
  have "clock s' + k' = clock s + duration (encode_frame h0 [b0, b1, b2, b3, b4]) + 50"
    using c duration_encode_bits[of h0 ?bs] by (simp only: encode_frame_def)
  with g f' show ?thesis by blast
qed

text \<open>
  C5. On a line that carries five bytes in the order humidity integer, humidity
  fraction, temperature integer, temperature fraction, checksum, \<^verbatim>\<open>getData\<close> returns
  with the humidity taken from the first byte and the temperature from the third; the
  two fraction bytes appear in no field but both enter the sum the checksum is compared
  with. It has then read the forty bits and no more: it stops inside the low that follows
  the last bit, whatever the line carries afterwards (\<open>rs\<close>).
\<close>

theorem getData_reads_five_bytes_in_order:
  assumes "26 \<le> h0" and "h0 \<le> 28"
      and "follows ln (clock s)
             (encode_frame h0 [hum_int, hum_frac, temp_int, temp_frac, checksum]
              @ (50, False) # rs)"
  shows "\<exists>s' k'. getData ln s temp
            = Some (\<lparr>temperature = uint temp_int, humidity = uint hum_int,
                     status = (if uint checksum
                                  = uint hum_int + uint hum_frac + uint temp_int + uint temp_frac
                               then 0 else 1)\<rparr>, s')
          \<and> follows ln (clock s') ((k', False) # rs)
          \<and> clock s' + k'
              = clock s
                + duration (encode_frame h0 [hum_int, hum_frac, temp_int, temp_frac, checksum])
                + 50"
  using assms by (rule getData_decodes_frame)

theorem getData_reads_five_bytes_in_order_witness:
  "(26::nat) \<le> 27 \<and> (27::nat) \<le> 28
   \<and> follows (pulse_line True (encode_frame 27 [0x32, 0x01, 0x15, 0x02, 0x4A] @ (50, False) # []))
        (clock pin0) (encode_frame 27 [0x32, 0x01, 0x15, 0x02, 0x4A] @ (50, False) # [])
   \<and> (\<exists>s'. getData (pulse_line True (encode_frame 27 [0x32, 0x01, 0x15, 0x02, 0x4A] @ (50, False) # []))
               pin0 junk
             = Some (\<lparr>temperature = 21, humidity = 50, status = 0\<rparr>, s'))"
proof -
  let ?ln = "pulse_line True (encode_frame 27 [0x32, 0x01, 0x15, 0x02, 0x4A] @ (50, False) # [])"
  have c: "clock pin0 = 0" by (simp add: pin0_def)
  have f: "follows ?ln (clock pin0) (encode_frame 27 [0x32, 0x01, 0x15, 0x02, 0x4A] @ (50, False) # [])"
    unfolding c by (rule follows_pulse_line)
  have "\<exists>s' k'. getData ?ln pin0 junk
            = Some (\<lparr>temperature = uint (0x15 :: 8 word), humidity = uint (0x32 :: 8 word),
                     status = (if uint (0x4A :: 8 word)
                                  = uint (0x32 :: 8 word) + uint (0x01 :: 8 word)
                                    + uint (0x15 :: 8 word) + uint (0x02 :: 8 word)
                               then 0 else 1)\<rparr>, s')
          \<and> follows ?ln (clock s') ((k', False) # [])
          \<and> clock s' + k'
              = clock pin0 + duration (encode_frame 27 [0x32, 0x01, 0x15, 0x02, 0x4A]) + 50"
    by (rule getData_reads_five_bytes_in_order[OF _ _ f]) simp_all
  then have "\<exists>s'. getData ?ln pin0 junk
             = Some (\<lparr>temperature = 21, humidity = 50, status = 0\<rparr>, s')"
    by auto
  with f show ?thesis by simp
qed

text \<open>
  C6. When the checksum byte on the line differs from the sum of the four data bytes
  modulo 256, \<^verbatim>\<open>getData\<close> still returns: the structure it leaves has the temperature
  and the humidity of the received bytes, and the mismatch shows in \<^verbatim>\<open>status\<close> alone,
  which is 1.
\<close>

theorem getData_checksum_mismatch_still_returns:
  assumes "26 \<le> h0" and "h0 \<le> 28"
      and "follows ln (clock s) (encode_frame h0 [b0, b1, b2, b3, b4] @ (50, False) # rs)"
      and "uint b4 \<noteq> (uint b0 + uint b1 + uint b2 + uint b3) mod 256"
  shows "\<exists>s'. getData ln s temp
            = Some (\<lparr>temperature = uint b2, humidity = uint b0, status = 1\<rparr>, s')"
proof -
  have "uint b4 < 256" using uint_bounded[of b4] by simp
  then have "uint b4 \<noteq> uint b0 + uint b1 + uint b2 + uint b3"
    using assms(4) by auto
  with getData_decodes_frame[OF assms(1,2,3), of temp] show ?thesis by auto
qed

theorem getData_checksum_mismatch_still_returns_witness:
  "(26::nat) \<le> 27 \<and> (27::nat) \<le> 28
   \<and> follows (pulse_line True (encode_frame 27 [0x32, 0x00, 0x15, 0x00, 0x48] @ (50, False) # []))
        (clock pin0) (encode_frame 27 [0x32, 0x00, 0x15, 0x00, 0x48] @ (50, False) # [])
   \<and> uint (0x48 :: 8 word)
       \<noteq> (uint (0x32 :: 8 word) + uint (0x00 :: 8 word) + uint (0x15 :: 8 word)
          + uint (0x00 :: 8 word)) mod 256
   \<and> (\<exists>s'. getData (pulse_line True (encode_frame 27 [0x32, 0x00, 0x15, 0x00, 0x48] @ (50, False) # []))
               pin0 junk
             = Some (\<lparr>temperature = 21, humidity = 50, status = 1\<rparr>, s'))"
proof -
  let ?ln = "pulse_line True (encode_frame 27 [0x32, 0x00, 0x15, 0x00, 0x48] @ (50, False) # [])"
  have c: "clock pin0 = 0" by (simp add: pin0_def)
  have f: "follows ?ln (clock pin0) (encode_frame 27 [0x32, 0x00, 0x15, 0x00, 0x48] @ (50, False) # [])"
    unfolding c by (rule follows_pulse_line)
  have m: "uint (0x48 :: 8 word)
       \<noteq> (uint (0x32 :: 8 word) + uint (0x00 :: 8 word) + uint (0x15 :: 8 word)
          + uint (0x00 :: 8 word)) mod 256"
    by simp
  have "\<exists>s'. getData ?ln pin0 junk
            = Some (\<lparr>temperature = uint (0x15 :: 8 word), humidity = uint (0x32 :: 8 word),
                     status = 1\<rparr>, s')"
    by (rule getData_checksum_mismatch_still_returns[OF _ _ f m]) simp_all
  then have "\<exists>s'. getData ?ln pin0 junk
             = Some (\<lparr>temperature = 21, humidity = 50, status = 1\<rparr>, s')"
    by simp
  with f m show ?thesis by simp
qed

text \<open>
  C1, at the payload 200, 0, 100, 0, 44. The four data bytes add up to 300, whose last
  eight bits are 44, the checksum byte received: the transmission is right in the sense
  of the comment above the comparison in \<^verbatim>\<open>getData\<close>. The comparison is made on the
  promoted integers, 44 against 300, and \<^verbatim>\<open>status\<close> is 1.
\<close>

theorem getData_checksum_sum_not_reduced:
  "map_option fst
     (getData (pulse_line True (encode_frame 27 [200, 0, 100, 0, 44] @ (50, False) # []))
        pin0 junk)
   = Some \<lparr>temperature = 100, humidity = 200, status = 1\<rparr>
   \<and> uint (44 :: 8 word)
     = (uint (200 :: 8 word) + uint (0 :: 8 word) + uint (100 :: 8 word) + uint (0 :: 8 word))
       mod 256"
proof -
  let ?ln = "pulse_line True (encode_frame 27 [200, 0, 100, 0, 44] @ (50, False) # [])"
  have c: "clock pin0 = 0" by (simp add: pin0_def)
  have f: "follows ?ln (clock pin0) (encode_frame 27 [200, 0, 100, 0, 44] @ (50, False) # [])"
    unfolding c by (rule follows_pulse_line)
  have "\<exists>s' k'. getData ?ln pin0 junk
            = Some (\<lparr>temperature = uint (100 :: 8 word), humidity = uint (200 :: 8 word),
                     status = (if uint (44 :: 8 word)
                                  = uint (200 :: 8 word) + uint (0 :: 8 word)
                                    + uint (100 :: 8 word) + uint (0 :: 8 word)
                               then 0 else 1)\<rparr>, s')
          \<and> follows ?ln (clock s') ((k', False) # [])
          \<and> clock s' + k' = clock pin0 + duration (encode_frame 27 [200, 0, 100, 0, 44]) + 50"
    by (rule getData_decodes_frame[OF _ _ f]) simp_all
  then obtain s' where "getData ?ln pin0 junk
      = Some (\<lparr>temperature = 100, humidity = 200, status = 1\<rparr>, s')"
    by auto
  then show ?thesis by simp
qed



section \<open>The start signal\<close>

lemma startSignal_eq:
  "startSignal ln s = spin_while False ln (handshaken s) \<bind> spin_while True ln"
proof -
  have "gpio_set_direction GPIO_MODE_INPUT (ets_delay_us 30 (gpio_set_level True
          (ets_delay_us (19 * 1000) (gpio_set_level False
            (gpio_set_direction GPIO_MODE_OUTPUT s))))) = handshaken s"
    by (cases s) (simp add: handshaken_def gpio_set_direction_def gpio_set_level_def
        ets_delay_us_def)
  then show ?thesis by (simp add: startSignal_def Let_def)
qed

lemma clock_handshaken [simp]: "clock (handshaken s) = clock s + 19030"
  by (simp add: handshaken_def)

lemma startSignal_SomeD:
  assumes "startSignal ln s = Some s'"
  shows "\<exists>a b. (\<forall>j<a. \<not> ln (clock s + 19030 + j)) \<and> ln (clock s + 19030 + a)
             \<and> (\<forall>j<b. ln (clock s + 19030 + a + 1 + j)) \<and> \<not> ln (clock s + 19030 + a + 1 + b)
             \<and> s' = spun True b (spun False a (handshaken s))"
proof -
  from assms obtain s7 where
    s7: "spin_while False ln (handshaken s) = Some s7"
    and s8: "spin_while True ln s7 = Some s'"
    unfolding startSignal_eq by (auto simp: bind_eq_Some_conv)
  from spin_while_SomeD[OF s7] obtain a where
    a: "\<forall>j<a. ln (clock (handshaken s) + j) = False" "ln (clock (handshaken s) + a) \<noteq> False"
       "s7 = spun False a (handshaken s)" by blast
  from spin_while_SomeD[OF s8] obtain b where
    b: "\<forall>j<b. ln (clock s7 + j) = True" "ln (clock s7 + b) \<noteq> True" "s' = spun True b s7"
    by blast
  show ?thesis
    using a b by (intro exI[of _ a] exI[of _ b]) simp
qed

lemma startSignal_Some_iff:
  "(\<exists>s'. startSignal ln s = Some s')
   \<longleftrightarrow> (\<exists>t1 t2. clock s + 19030 \<le> t1 \<and> t1 < t2 \<and> ln t1 \<and> \<not> ln t2)"
proof
  assume "\<exists>s'. startSignal ln s = Some s'"
  then obtain s' where "startSignal ln s = Some s'" ..
  from startSignal_SomeD[OF this] obtain a b where
    "ln (clock s + 19030 + a)" "\<not> ln (clock s + 19030 + a + 1 + b)" by blast
  then show "\<exists>t1 t2. clock s + 19030 \<le> t1 \<and> t1 < t2 \<and> ln t1 \<and> \<not> ln t2"
    by (intro exI[of _ "clock s + 19030 + a"] exI[of _ "clock s + 19030 + a + 1 + b"]) simp
next
  assume "\<exists>t1 t2. clock s + 19030 \<le> t1 \<and> t1 < t2 \<and> ln t1 \<and> \<not> ln t2"
  then obtain t1 t2 where t: "clock s + 19030 \<le> t1" "t1 < t2" "ln t1" "\<not> ln t2" by blast
  have "\<exists>t. clock (handshaken s) \<le> t \<and> ln t \<noteq> False" using t(1,3) by auto
  then obtain s7 where s7: "spin_while False ln (handshaken s) = Some s7"
    using spin_while_Some_iff[of False ln "handshaken s"] by blast
  from spin_while_SomeD[OF s7] obtain a where
    a: "\<forall>j<a. ln (clock (handshaken s) + j) = False" "s7 = spun False a (handshaken s)"
    by blast
  have "a \<le> t1 - (clock s + 19030)"
  proof (rule ccontr)
    assume "\<not> a \<le> t1 - (clock s + 19030)"
    then have "t1 - (clock s + 19030) < a" by simp
    with a(1) have "\<not> ln (clock (handshaken s) + (t1 - (clock s + 19030)))" by blast
    with t(1,3) show False by simp
  qed
  then have "clock s7 \<le> t2" using a(2) t(1,2) by simp
  then have "\<exists>t. clock s7 \<le> t \<and> ln t \<noteq> True" using t(4) by auto
  then obtain s' where "spin_while True ln s7 = Some s'"
    using spin_while_Some_iff[of True ln s7] by blast
  with s7 show "\<exists>s'. startSignal ln s = Some s'" unfolding startSignal_eq by simp
qed

text \<open>
  The sensor's answer as the header comment gives it: low, then high, then the low that
  opens the first bit. \<^verbatim>\<open>startSignal\<close> returns one microsecond into that last low.
\<close>

lemma startSignal_acknowledged:
  assumes f: "follows ln (clock s + 19030) ((a, False) # (h, True) # (g, False) # rs)"
      and h: "0 < h" and g: "0 < g"
  shows "\<exists>s'. startSignal ln s = Some s'
          \<and> s' = spun True (h - 1) (spun False a (handshaken s))
          \<and> follows ln (clock s') ((g - 1, False) # rs)
          \<and> clock s' + (g - 1) = clock s + 19030 + a + h + g"
proof -
  define c where "c = clock s + 19030"
  from f have lo: "\<And>t. c \<le> t \<Longrightarrow> t < c + a \<Longrightarrow> \<not> ln t"
    and hi: "\<And>t. c + a \<le> t \<Longrightarrow> t < c + a + h \<Longrightarrow> ln t"
    and gap: "\<And>t. c + a + h \<le> t \<Longrightarrow> t < c + a + h + g \<Longrightarrow> \<not> ln t"
    and rest: "follows ln (c + a + h + g) rs"
    by (simp_all add: follows_Cons_iff c_def add.assoc del: follows.simps(2))
  have "spin_while False ln (handshaken s) = Some (spun False (c + a - clock (handshaken s)) (handshaken s))"
    by (rule spin_while_until) (use lo hi h in \<open>auto simp: c_def\<close>)
  then have s7: "spin_while False ln (handshaken s) = Some (spun False a (handshaken s))"
    by (simp add: c_def)
  define s7 where "s7 = spun False a (handshaken s)"
  have c7: "clock s7 = c + a + 1" by (simp add: s7_def c_def)
  have "spin_while True ln s7 = Some (spun True (c + a + h - clock s7) s7)"
  proof (rule spin_while_until)
    show "\<forall>t. clock s7 \<le> t \<and> t < c + a + h \<longrightarrow> ln t = True" using hi by (simp add: c7)
    show "ln (c + a + h) \<noteq> True" using gap[of "c + a + h"] g by simp
    show "clock s7 \<le> c + a + h" using h by (simp add: c7)
  qed
  then have s8: "spin_while True ln s7 = Some (spun True (h - 1) s7)" by (simp add: c7)
  have r: "startSignal ln s = Some (spun True (h - 1) s7)"
    unfolding startSignal_eq using s7 s8 by (simp add: s7_def)
  have e: "clock (spun True (h - 1) s7) + (g - 1) = c + a + h + g"
    using h g by (simp add: c7)
  have "\<forall>t. clock (spun True (h - 1) s7) \<le> t \<and> t < c + a + h + g \<longrightarrow> ln t = False"
    using gap h by (auto simp: c7)
  then have "follows ln (clock (spun True (h - 1) s7)) ((g - 1, False) # rs)"
    unfolding follows_Cons_iff e using rest by blast
  with r e show ?thesis unfolding s7_def c_def by blast
qed

text \<open>
  C3, as the code has it. \<^verbatim>\<open>startSignal\<close> has no timeout and no result to report a
  missing answer with. It returns exactly when, from the moment the pin is an input
  (19030 microseconds after the call), the line is high at some time and low at a later
  time. On a line that stays low, or stays high, it never returns.
\<close>

theorem startSignal_returns_iff_acknowledged:
  "(\<exists>s'. startSignal ln s = Some s')
   \<longleftrightarrow> (\<exists>t1 t2. clock s + 19030 \<le> t1 \<and> t1 < t2 \<and> ln t1 \<and> \<not> ln t2)"
  by (rule startSignal_Some_iff)

theorem startSignal_returns_iff_acknowledged_witness:
  "(\<exists>s'. startSignal (pulse_line True [(19030, True), (40, False), (80, True), (50, False)]) pin0
           = Some s')
   \<and> clock pin0 + 19030 \<le> 19070 \<and> (19070::nat) < 19150
   \<and> pulse_line True [(19030, True), (40, False), (80, True), (50, False)] 19070
   \<and> \<not> pulse_line True [(19030, True), (40, False), (80, True), (50, False)] 19150"
proof -
  let ?ack = "pulse_line True [(19030, True), (40, False), (80, True), (50, False)]"
  have c: "clock pin0 = 0" by (simp add: pin0_def)
  have a: "clock pin0 + 19030 \<le> 19070 \<and> (19070::nat) < 19150 \<and> ?ack 19070 \<and> \<not> ?ack 19150"
    by (simp add: c)
  then have "\<exists>s'. startSignal ?ack pin0 = Some s'"
    using startSignal_returns_iff_acknowledged[of ?ack pin0] by blast
  with a show ?thesis by simp
qed

text \<open>
  On a line that stays low the first loop never leaves, on a line that stays high the
  second never does: \<^verbatim>\<open>startSignal\<close> does not return, with or without an error.
\<close>

theorem startSignal_never_times_out:
  "startSignal (pulse_line False []) pin0 = None
   \<and> startSignal (pulse_line True []) pin0 = None"
proof -
  have "spin_while False (pulse_line False []) (handshaken pin0) = None"
    by (rule spin_while_stuck) simp
  then have 1: "startSignal (pulse_line False []) pin0 = None"
    unfolding startSignal_eq by simp
  have "spin_while True (pulse_line True []) s7 = None" for s7
    by (rule spin_while_stuck) simp
  then have 2: "startSignal (pulse_line True []) pin0 = None"
    unfolding startSignal_eq by (cases "spin_while False (pulse_line True []) (handshaken pin0)") simp_all
  from 1 2 show ?thesis by simp
qed



section \<open>A transmission that stops\<close>

lemma readData_bit_stalls:
  assumes f: "follows ln (clock s) [(k, False)]"
      and st: "\<forall>t. clock s + k \<le> t \<longrightarrow> ln t = v"
  shows "readData_bit ln sbuf s = None"
proof (cases v)
  case False
  have "\<forall>t. clock s \<le> t \<longrightarrow> ln t = False"
  proof (intro allI impI)
    fix t assume t: "clock s \<le> t"
    show "ln t = False"
    proof (cases "t < clock s + k")
      case True
      with f t show ?thesis by (simp add: follows_Cons_iff del: follows.simps(2))
    next
      case False
      with st \<open>\<not> v\<close> show ?thesis by simp
    qed
  qed
  then have "spin_while False ln s = None" by (rule spin_while_stuck)
  then show ?thesis by (simp add: readData_bit_def)
next
  case True
  have "spin_while False ln s = Some (spun False (clock s + k - clock s) s)"
  proof (rule spin_while_until)
    show "\<forall>t. clock s \<le> t \<and> t < clock s + k \<longrightarrow> ln t = False"
      using f by (simp add: follows_Cons_iff del: follows.simps(2))
    show "ln (clock s + k) \<noteq> False" using st True by simp
    show "clock s \<le> clock s + k" by simp
  qed
  then have s1: "spin_while False ln s = Some (spun False k s)" by simp
  define s3 where "s3 = snd (gpio_get_level ln (ets_delay_us 30 (spun False k s)))"
  have "clock s3 = clock s + k + 32"
    by (simp add: s3_def gpio_get_level_def ets_delay_us_def)
  then have "\<forall>t. clock s3 \<le> t \<longrightarrow> ln t = True" using st True by simp
  then have "spin_while True ln s3 = None" by (rule spin_while_stuck)
  then show ?thesis using s1 by (simp add: readData_bit_def Let_def s3_def)
qed

lemma readData_loop_stalls:
  assumes h0: "26 \<le> h0" "h0 \<le> 28"
  shows "length bs + i < 8 \<Longrightarrow> follows ln (clock s) ((k, False) # pulses h0 bs) \<Longrightarrow>
     \<forall>t. clock s + k + duration (pulses h0 bs) \<le> t \<longrightarrow> ln t = v \<Longrightarrow>
     readData_loop i ln sbuf s = None"
proof (induction bs arbitrary: i sbuf s k)
  case Nil
  then have "readData_bit ln sbuf s = None"
    using readData_bit_stalls[of ln s k v sbuf] by simp
  moreover have "i < 8" using Nil.prems(1) by simp
  ultimately show ?case by (simp add: readData_loop.simps[of i])
next
  case (Cons b bs)
  let ?h = "if b then 70 else h0"
  have i: "i < 8" using Cons.prems(1) by simp
  have "follows ln (clock s) ((k, False) # (?h, True) # (50, False) # pulses h0 bs)"
    using Cons.prems(2) by simp
  moreover have "if b then ?h = 70 else 26 \<le> ?h \<and> ?h \<le> 28" using h0 by simp
  ultimately obtain s1 k1 where
    b: "readData_bit ln sbuf s = Some (shift_in b sbuf, s1)"
    and f: "follows ln (clock s1) ((k1, False) # pulses h0 bs)"
    and c1: "clock s1 + k1 = clock s + k + ?h + 50"
    using readData_bit_decodes by blast
  have l: "length bs + (i + 1) < 8" using Cons.prems(1) by simp
  have "\<forall>t. clock s1 + k1 + duration (pulses h0 bs) \<le> t \<longrightarrow> ln t = v"
    using Cons.prems(3) c1 by (simp add: add.assoc)
  with l f have "readData_loop (i + 1) ln (shift_in b sbuf) s1 = None"
    by (rule Cons.IH)
  then show ?case using i b by (simp add: readData_loop.simps[of i])
qed

text \<open>
  One call of \<^verbatim>\<open>readData\<close> on a transmission that stops: it either never returns, or it
  has read eight bits and fewer than \<open>n\<close> remain.
\<close>

lemma readData_cut_short:
  assumes h0: "26 \<le> h0" "h0 \<le> 28"
      and cs: "cut_short h0 ln (clock s) v (n + 8)"
      and rd: "readData ln s = Some (x, s1)"
  shows "cut_short h0 ln (clock s1) v n"
proof -
  from cs obtain k bs where
    len: "length bs < n + 8"
    and f: "follows ln (clock s) ((k, False) # pulses h0 bs)"
    and st: "\<forall>t. clock s + k + duration (pulses h0 bs) \<le> t \<longrightarrow> ln t = v"
    unfolding cut_short_def by blast
  have ge: "8 \<le> length bs"
  proof (rule ccontr)
    assume "\<not> 8 \<le> length bs"
    then have "length bs + 0 < 8" by simp
    from readData_loop_stalls[OF h0 this f st] have "readData ln s = None"
      by (simp add: readData_def)
    with rd show False by simp
  qed
  have split: "bs = take 8 bs @ drop 8 bs" by simp
  have f8: "follows ln (clock s) ((k, False) # pulses h0 (take 8 bs) @ pulses h0 (drop 8 bs))"
    using f by (subst (asm) split) (simp only: pulses_append)
  have "length (take 8 bs) + 0 = 8" using ge by simp
  from readData_loop_decodes[OF h0 this f8, of 0] obtain s' k' where
    r: "readData ln s = Some (fold shift_in (take 8 bs) 0, s')"
    and f': "follows ln (clock s') ((k', False) # pulses h0 (drop 8 bs))"
    and c': "clock s' + k' = clock s + k + duration (pulses h0 (take 8 bs))"
    unfolding readData_def by blast
  have e: "s1 = s'" using r rd by simp
  have "duration (pulses h0 bs) = duration (pulses h0 (take 8 bs)) + duration (pulses h0 (drop 8 bs))"
    by (subst split) (simp only: pulses_append duration_append)
  then have "\<forall>t. clock s' + k' + duration (pulses h0 (drop 8 bs)) \<le> t \<longrightarrow> ln t = v"
    using st c' by (simp add: add.assoc)
  moreover have "length (drop 8 bs) < n" using len ge by simp
  ultimately show ?thesis unfolding cut_short_def e using f' by blast
qed

lemma getData_cut_short:
  assumes h0: "26 \<le> h0" "h0 \<le> 28"
      and cs: "cut_short h0 ln (clock s) v 40"
  shows "getData ln s temp = None"
proof (cases "getData ln s temp")
  case None
  then show ?thesis .
next
  case (Some p)
  then obtain r s' where "getData ln s temp = Some (r, s')" by (cases p) simp
  then obtain b0 b1 b2 b3 b4 s1 s2 s3 s4 where
    rd: "readData ln s = Some (b0, s1)" "readData ln s1 = Some (b1, s2)"
      "readData ln s2 = Some (b2, s3)" "readData ln s3 = Some (b3, s4)"
      "readData ln s4 = Some (b4, s')"
    unfolding getData_Some_iff by blast
  have "cut_short h0 ln (clock s1) v 32"
    using readData_cut_short[OF h0 _ rd(1), of v 32] cs by simp
  then have "cut_short h0 ln (clock s2) v 24"
    using readData_cut_short[OF h0 _ rd(2), of v 24] by simp
  then have "cut_short h0 ln (clock s3) v 16"
    using readData_cut_short[OF h0 _ rd(3), of v 16] by simp
  then have "cut_short h0 ln (clock s4) v 8"
    using readData_cut_short[OF h0 _ rd(4), of v 8] by simp
  then have "cut_short h0 ln (clock s') v 0"
    using readData_cut_short[OF h0 _ rd(5), of v 0] by simp
  then show ?thesis by (simp add: cut_short_def)
qed

lemma getData_stalls:
  assumes h0: "26 \<le> h0" "h0 \<le> 28"
      and len: "length bs < 40"
      and f: "follows ln (clock s) (encode_bits h0 bs @ [(50, False)])"
      and st: "\<forall>t. clock s + duration (encode_bits h0 bs) + 50 \<le> t \<longrightarrow> ln t = v"
  shows "getData ln s temp = None"
proof -
  have "follows ln (clock s) ((50, False) # pulses h0 bs)"
    using f encode_bits_pulses[of h0 bs "[]"] by simp
  moreover have "\<forall>t. clock s + 50 + duration (pulses h0 bs) \<le> t \<longrightarrow> ln t = v"
    using st duration_encode_bits[of h0 bs] by (simp add: add.assoc)
  ultimately have "cut_short h0 ln (clock s) v 40"
    unfolding cut_short_def using len by blast
  then show ?thesis by (rule getData_cut_short[OF h0])
qed

text \<open>
  C4, as the code has it. When the sensor stops before the fortieth bit (it has sent
  the bits \<open>bs\<close>, fewer than forty, and the low that follows them, and the line then keeps
  one level \<open>v\<close> for ever, so the edge the next wait needs never comes), \<^verbatim>\<open>getData\<close>
  never returns: it reports no timeout, and it produces no structure, neither whole nor
  partial. A request whose start signal has returned at that moment never returns
  either.
\<close>

theorem getData_stalled_never_returns:
  assumes "26 \<le> h0" and "h0 \<le> 28"
      and "length bs < 40"
      and "follows ln (clock s) (encode_bits h0 bs @ [(50, False)])"
      and "\<forall>t. clock s + duration (encode_bits h0 bs) + 50 \<le> t \<longrightarrow> ln t = v"
  shows "getData ln s temp = None
       \<and> (\<forall>s0 uninit. startSignal ln (gpio_pad_select_gpio s0) = Some s
              \<longrightarrow> get_handler ln s0 uninit = None)"
proof -
  have "getData ln s t' = None" for t'
    using assms by (rule getData_stalls)
  then show ?thesis by (simp add: get_handler_def)
qed

theorem getData_stalled_never_returns_witness:
  "(26::nat) \<le> 27 \<and> (27::nat) \<le> 28 \<and> length [True, False, True] < 40
   \<and> follows (pulse_line True (encode_bits 27 [True, False, True] @ [(50, False)])) (clock pin0)
        (encode_bits 27 [True, False, True] @ [(50, False)])
   \<and> getData (pulse_line True (encode_bits 27 [True, False, True] @ [(50, False)])) pin0 junk
       = None"
proof -
  let ?rs = "encode_bits 27 [True, False, True] @ [(50, False)]"
  have c: "clock pin0 = 0" by (simp add: pin0_def)
  have f: "follows (pulse_line True ?rs) (clock pin0) ?rs"
    unfolding c by (rule follows_pulse_line)
  have st: "\<forall>t. clock pin0 + duration (encode_bits 27 [True, False, True]) + 50 \<le> t
          \<longrightarrow> pulse_line True ?rs t = True"
    by (simp add: c pulse_line_after)
  have "getData (pulse_line True ?rs) pin0 junk = None"
    using getData_stalled_never_returns[OF _ _ _ f st, of junk] by simp
  with f show ?thesis by simp
qed

text \<open>
  A sensor that sends three bits and then holds the line low: \<^verbatim>\<open>getData\<close> does not
  return, with or without an error.
\<close>

theorem getData_stall_gives_no_timeout:
  "getData (pulse_line False (encode_bits 27 [True, False, True] @ [(50, False)])) pin0 junk
   = None"
proof -
  let ?rs = "encode_bits 27 [True, False, True] @ [(50, False)]"
  have c: "clock pin0 = 0" by (simp add: pin0_def)
  have f: "follows (pulse_line False ?rs) (clock pin0) ?rs"
    unfolding c by (rule follows_pulse_line)
  have st: "\<forall>t. clock pin0 + duration (encode_bits 27 [True, False, True]) + 50 \<le> t
          \<longrightarrow> pulse_line False ?rs t = False"
    by (simp add: c pulse_line_after)
  show ?thesis by (rule getData_stalls[OF _ _ _ f st]) simp_all
qed

section \<open>A request\<close>

lemma get_handler_Some_iff:
  "get_handler ln s uninit = Some (out, s') \<longleftrightarrow>
     (\<exists>s2 d. startSignal ln (gpio_pad_select_gpio s) = Some s2
        \<and> getData ln s2 uninit = Some (d, s')
        \<and> out = \<lparr>console =
                    (if status d = 0
                     then ''Temp='' @ fmt_d (temperature d) @ '', Humi='' @ fmt_d (humidity d)
                          @ [CHR 0x0D, CHR 0x0A]
                     else ''DHT11 Error!'' @ [CHR 0x0D, CHR 0x0A]),
                  htmlPage = html_page (temperature d) (humidity d)\<rparr>)"
  unfolding get_handler_def Let_def bind_eq_Some_conv
  by (simp only: split_paired_Ex fst_conv snd_conv option.inject prod.inject) blast

lemma list_all_quiet_reads [simp]: "list_all quiet_op (replicate k (GetLevel v))"
  by (induction k) simp_all

lemma follows_tl: "follows ln c ((n, v) # rs) \<Longrightarrow> follows ln (c + n) rs"
  by simp

lemma get_handler_trace:
  assumes "get_handler ln s uninit = Some (out, s')"
  shows "mode s' = GPIO_MODE_INPUT \<and> driven s' = True
       \<and> (\<exists>ops. trace s' = trace s
                    @ [PadSelect, SetDirection GPIO_MODE_OUTPUT, SetLevel False, DelayUs 19000,
                       SetLevel True, DelayUs 30, SetDirection GPIO_MODE_INPUT]
                    @ ops
                 \<and> list_all quiet_op ops)"
proof -
  from assms obtain s2 d where
    st: "startSignal ln (gpio_pad_select_gpio s) = Some s2"
    and gd: "getData ln s2 uninit = Some (d, s')"
    unfolding get_handler_Some_iff by blast
  from startSignal_SomeD[OF st] obtain a b where
    s2: "s2 = spun True b (spun False a (handshaken (gpio_pad_select_gpio s)))" by blast
  have m2: "mode s2 = GPIO_MODE_INPUT" "driven s2 = True"
    by (simp_all add: s2 handshaken_def)
  have t2: "trace s2 = trace s
      @ [PadSelect, SetDirection GPIO_MODE_OUTPUT, SetLevel False, DelayUs 19000,
         SetLevel True, DelayUs 30, SetDirection GPIO_MODE_INPUT]
      @ (replicate a (GetLevel False) @ [GetLevel True]
         @ replicate b (GetLevel True) @ [GetLevel False])"
    by (simp add: s2 spun_def handshaken_def gpio_pad_select_gpio_def)
  have q2: "list_all quiet_op (replicate a (GetLevel False) @ [GetLevel True]
         @ replicate b (GetLevel True) @ [GetLevel False])"
    by simp
  from getData_untouched[OF gd] obtain ops where
    u: "mode s' = mode s2" "driven s' = driven s2" "trace s' = trace s2 @ ops"
      "list_all quiet_op ops"
    unfolding untouched_def by blast
  let ?all = "(replicate a (GetLevel False) @ [GetLevel True]
         @ replicate b (GetLevel True) @ [GetLevel False]) @ ops"
  have tr: "trace s' = trace s
      @ [PadSelect, SetDirection GPIO_MODE_OUTPUT, SetLevel False, DelayUs 19000,
         SetLevel True, DelayUs 30, SetDirection GPIO_MODE_INPUT] @ ?all"
    using u(3) t2 by simp
  have q: "list_all quiet_op ?all" using q2 u(4) by simp
  have "\<exists>ops. trace s' = trace s
                    @ [PadSelect, SetDirection GPIO_MODE_OUTPUT, SetLevel False, DelayUs 19000,
                       SetLevel True, DelayUs 30, SetDirection GPIO_MODE_INPUT]
                    @ ops
                 \<and> list_all quiet_op ops"
    by (rule exI[of _ ?all], rule conjI[OF tr q])
  moreover have "mode s' = GPIO_MODE_INPUT" "driven s' = True" using u(1,2) m2 by simp_all
  ultimately show ?thesis by simp
qed

text \<open>
  A request answered by the sensor: the low and the high of its answer (\<open>a\<close> and \<open>h\<close>
  microseconds: what is left of the low when the pin becomes an input, and the high),
  then the five bytes.
\<close>

lemma get_handler_decodes:
  assumes h0: "26 \<le> h0" "h0 \<le> 28" and h: "0 < h"
      and f: "follows ln (clock s + 19030)
                ((a, False) # (h, True) # encode_frame h0 [b0, b1, b2, b3, b4]
                 @ (50, False) # rs)"
  shows "\<exists>s'. get_handler ln s uninit
           = Some (\<lparr>console =
                      (if uint b4 = uint b0 + uint b1 + uint b2 + uint b3
                       then ''Temp='' @ fmt_d (uint b2) @ '', Humi='' @ fmt_d (uint b0)
                            @ [CHR 0x0D, CHR 0x0A]
                       else ''DHT11 Error!'' @ [CHR 0x0D, CHR 0x0A]),
                    htmlPage = html_page (uint b2) (uint b0)\<rparr>, s')"
proof -
  let ?bs = "concat (map bits_msb [b0, b1, b2, b3, b4])"
  let ?s1 = "gpio_pad_select_gpio s"
  have c1: "clock ?s1 = clock s" by (simp add: gpio_pad_select_gpio_def)
  have "follows ln (clock ?s1 + 19030) ((a, False) # (h, True) # (50, False) # pulses h0 ?bs @ rs)"
    using f unfolding c1 by (simp only: encode_frame_def encode_bits_pulses)
  from startSignal_acknowledged[OF this h] obtain s2 where
    st: "startSignal ln ?s1 = Some s2"
    and f2: "follows ln (clock s2) ((50 - 1, False) # pulses h0 ?bs @ rs)" by auto
  from getData_decodes[OF h0 f2, of uninit] obtain s' where
    gd: "getData ln s2 uninit
          = Some (\<lparr>temperature = uint b2, humidity = uint b0,
                   status = (if uint b4 = uint b0 + uint b1 + uint b2 + uint b3
                             then 0 else 1)\<rparr>, s')" by blast
  let ?d = "\<lparr>temperature = uint b2, humidity = uint b0,
            status = (if uint b4 = uint b0 + uint b1 + uint b2 + uint b3 then 0 else (1::int))\<rparr>"
  have "get_handler ln s uninit
      = Some (\<lparr>console =
                    (if status ?d = 0
                     then ''Temp='' @ fmt_d (temperature ?d) @ '', Humi='' @ fmt_d (humidity ?d)
                          @ [CHR 0x0D, CHR 0x0A]
                     else ''DHT11 Error!'' @ [CHR 0x0D, CHR 0x0A]),
                  htmlPage = html_page (temperature ?d) (humidity ?d)\<rparr>, s')"
    unfolding get_handler_Some_iff using st gd by blast
  then show ?thesis by (intro exI[of _ s']) (simp split: if_splits)
qed

text \<open>
  C8. Whenever a request completes, with \<^verbatim>\<open>status\<close> 0 or with \<^verbatim>\<open>status\<close> 1, the pin is an
  input, and after the call that made it one, the last of the start signal, the only
  calls made on the pin are reads of the level and delays: none sets the direction or
  drives a level.
\<close>

theorem get_handler_leaves_pin_input:
  assumes "get_handler ln s uninit = Some (out, s')"
  shows "mode s' = GPIO_MODE_INPUT
       \<and> (\<exists>ops. trace s' = trace s
                    @ [PadSelect, SetDirection GPIO_MODE_OUTPUT, SetLevel False, DelayUs 19000,
                       SetLevel True, DelayUs 30, SetDirection GPIO_MODE_INPUT]
                    @ ops
                 \<and> list_all quiet_op ops)"
  using get_handler_trace[OF assms] by blast

theorem get_handler_leaves_pin_input_witness:
  "\<exists>out s'. get_handler
       (pulse_line True ((19030, True) # (40, False) # (80, True)
          # encode_frame 27 [0x32, 0x00, 0x15, 0x00, 0x48] @ (50, False) # []))
       pin0 junk = Some (out, s')
     \<and> mode s' = GPIO_MODE_INPUT
     \<and> console out = ''DHT11 Error!'' @ [CHR 0x0D, CHR 0x0A]"
proof -
  let ?rs = "(19030, True) # (40, False) # (80, True)
          # encode_frame 27 [0x32, 0x00, 0x15, 0x00, 0x48] @ (50, False) # []"
  have c: "clock pin0 = 0" by (simp add: pin0_def)
  have "follows (pulse_line True ?rs) 0 ?rs" by (rule follows_pulse_line)
  from follows_tl[OF this]
  have "follows (pulse_line True ?rs) (clock pin0 + 19030)
      ((40, False) # (80, True) # encode_frame 27 [0x32, 0x00, 0x15, 0x00, 0x48]
       @ (50, False) # [])"
    unfolding c by (simp only: add_0)
  from get_handler_decodes[OF _ _ _ this, of junk] obtain s' where
    g: "get_handler (pulse_line True ?rs) pin0 junk
        = Some (\<lparr>console = ''DHT11 Error!'' @ [CHR 0x0D, CHR 0x0A],
                 htmlPage = html_page (uint (0x15 :: 8 word)) (uint (0x32 :: 8 word))\<rparr>, s')"
    by auto
  from get_handler_leaves_pin_input[OF g] have "mode s' = GPIO_MODE_INPUT" by blast
  with g show ?thesis
    by (intro exI[of _ "\<lparr>console = ''DHT11 Error!'' @ [CHR 0x0D, CHR 0x0A],
                 htmlPage = html_page (uint (0x15 :: 8 word)) (uint (0x32 :: 8 word))\<rparr>"]
          exI[of _ s']) simp
qed

text \<open>
  C9, at a request the sensor answers with the payload 200, 0, 100, 0, 44. The checksum
  byte is the sum of the four data bytes modulo 256 (300 modulo 256 is 44), so the frame
  is valid. The handler sends the page with the temperature 100 and the humidity 200,
  and the page carries no error text; but on the console it writes \<^verbatim>\<open>DHT11 Error!\<close> and
  not the two values, because \<^verbatim>\<open>getData\<close> compared 44 with 300 and left \<^verbatim>\<open>status\<close> at 1.
\<close>

theorem get_handler_reports_error_on_valid_frame:
  "map_option fst
     (get_handler
        (pulse_line True ((19030, True) # (40, False) # (80, True)
           # encode_frame 27 [200, 0, 100, 0, 44] @ (50, False) # []))
        pin0 junk)
   = Some \<lparr>console = ''DHT11 Error!'' @ [CHR 0x0D, CHR 0x0A],
            htmlPage = ''<<!DOCTYPE html><html>\<newline><head>\<newline><style>\<newline>html {font-family: sans-serif; text-align: center;}\<newline></style>\<newline></head>\<newline><body>\<newline><div>\<newline><h1>ESP32 IoT Server</h1>\<newline></div>\<newline><div>\<newline><h3>Temperature and Humidity Monitor</h3>\<newline><p>DHT11 Temperature Reading: 100&deg;C</p>\<newline><p>DHT11 Humidity Reading: 200%</p>\<newline></div>\<newline></body>\<newline></html> >''\<rparr>
   \<and> uint (44 :: 8 word)
     = (uint (200 :: 8 word) + uint (0 :: 8 word) + uint (100 :: 8 word) + uint (0 :: 8 word))
       mod 256"
proof -
  let ?rs = "(19030, True) # (40, False) # (80, True)
          # encode_frame 27 [200, 0, 100, 0, 44] @ (50, False) # []"
  have c: "clock pin0 = 0" by (simp add: pin0_def)
  have "follows (pulse_line True ?rs) 0 ?rs" by (rule follows_pulse_line)
  from follows_tl[OF this]
  have f: "follows (pulse_line True ?rs) (clock pin0 + 19030)
      ((40, False) # (80, True) # encode_frame 27 [200, 0, 100, 0, 44] @ (50, False) # [])"
    unfolding c by (simp only: add_0)
  from get_handler_decodes[OF _ _ _ f, of junk] obtain s' where
    g: "get_handler (pulse_line True ?rs) pin0 junk
        = Some (\<lparr>console = ''DHT11 Error!'' @ [CHR 0x0D, CHR 0x0A],
                 htmlPage = html_page 100 200\<rparr>, s')"
    by auto
  have d: "fmt_d 100 = ''100''" "fmt_d 200 = ''200''"
    by (simp_all add: fmt_d_def digits10.simps)
  have p: "html_page 100 200 = ''<<!DOCTYPE html><html>\<newline><head>\<newline><style>\<newline>html {font-family: sans-serif; text-align: center;}\<newline></style>\<newline></head>\<newline><body>\<newline><div>\<newline><h1>ESP32 IoT Server</h1>\<newline></div>\<newline><div>\<newline><h3>Temperature and Humidity Monitor</h3>\<newline><p>DHT11 Temperature Reading: 100&deg;C</p>\<newline><p>DHT11 Humidity Reading: 200%</p>\<newline></div>\<newline></body>\<newline></html> >''"
    by (simp add: html_page_def d)
  show ?thesis using g p by simp
qed

end
